theory Spec2Isabelle
  imports Complex_Main "HOL-Library.AList"
begin

section \<open>Vehicle light detection: data model\<close>

text \<open>
  The embedding follows \<^verbatim>\<open>light_detector.py\<close>, \<^verbatim>\<open>inference.py\<close> and
  \<^verbatim>\<open>train_model.py\<close>.

  A detected light is the dictionary built in \<^verbatim>\<open>detect_lights\<close> (keys
  \<^verbatim>\<open>bbox, center, area, intensity, id\<close>). An observation is the dictionary appended
  to a track's history in \<^verbatim>\<open>track_lights\<close> (keys \<^verbatim>\<open>center, intensity, frame, on\<close>).
  Pixel coordinates and frame numbers are Python integers (\<open>int\<close>); intensities are
  float64 values, read here as the real numbers they denote.
\<close>

record light =
  bbox :: "int \<times> int \<times> int \<times> int"
  center :: "int \<times> int"
  area :: real
  intensity :: real
  det_id :: nat

record observation =
  obs_center :: "int \<times> int"
  obs_intensity :: real
  obs_frame :: int
  obs_on :: bool

text \<open>
  Track ids are the strings \<^verbatim>\<open>f"light_{n}"\<close>; \<open>Light n\<close> stands for that string
  (the decimal rendering of \<open>n\<close> is injective, so two ids are equal exactly when
  their numbers are).
\<close>

datatype track_id = Light nat

text \<open>
  A history is the content of a \<^verbatim>\<open>deque(maxlen=frame_buffer_size)\<close>, oldest entry
  first. \<^verbatim>\<open>self.light_history\<close> is a Python dict, which iterates in insertion order:
  an association list with distinct keys. \<open>AList.update\<close> stores under a key (in
  place when the key exists, at the end otherwise), \<open>AList.delete\<close> is \<^verbatim>\<open>del\<close>,
  \<open>map_of\<close> is lookup.
\<close>

type_synonym history = "observation list"
type_synonym history_dict = "(track_id \<times> history) list"

datatype label = running_light | hazard_light | unknown

text \<open>
  The detector object. \<open>frame_buffer_size\<close> is a natural number: a negative
  \<^verbatim>\<open>maxlen\<close> is rejected by \<^verbatim>\<open>deque\<close> and is not modelled.
\<close>

record detector =
  frame_buffer_size :: nat
  light_history :: history_dict
  frame_count :: int

definition init_detector :: "nat \<Rightarrow> detector" where
  "init_detector n = \<lparr>frame_buffer_size = n, light_history = [], frame_count = 0\<rparr>"

section \<open>Tracking\<close>

text \<open>
  \<^verbatim>\<open>deque.append\<close> on a bounded deque: the item is added on the right and, when the
  deque is then longer than \<^verbatim>\<open>maxlen\<close>, one item is removed on the left.
\<close>

definition deque_append :: "nat \<Rightarrow> 'a list \<Rightarrow> 'a \<Rightarrow> 'a list" where
  "deque_append maxlen d x =
     (let d' = d @ [x] in if length d' > maxlen then tl d' else d')"

text \<open>
  The source computes \<^verbatim>\<open>distance = np.sqrt(dx**2 + dy**2)\<close> on integer coordinates and
  tests \<^verbatim>\<open>distance < 50 and distance < min_distance\<close>, with \<^verbatim>\<open>min_distance\<close> initially
  \<^verbatim>\<open>inf\<close>. The model keeps the squared distance, an exact integer: the square root is
  strictly increasing on the integers below 2500, \<open>sqrt 2500 = 50\<close> exactly, and the
  second comparison is only reached when the first holds, so both tests have the same
  outcome on squares. \<open>None\<close> is \<^verbatim>\<open>inf\<close>.
\<close>

definition dist_sq :: "int \<times> int \<Rightarrow> int \<times> int \<Rightarrow> int" where
  "dist_sq c p = (fst c - fst p)\<^sup>2 + (snd c - snd p)\<^sup>2"

definition below_min :: "int \<Rightarrow> int option \<Rightarrow> bool" where
  "below_min d m = (case m of None \<Rightarrow> True | Some md \<Rightarrow> d < md)"

text \<open>The inner loop of \<^verbatim>\<open>track_lights\<close>: find the closest previous light.\<close>

fun closest_prev ::
  "int \<times> int \<Rightarrow> history_dict \<Rightarrow> track_id option \<times> int option \<Rightarrow> track_id option \<times> int option"
where
  "closest_prev c [] acc = acc"
| "closest_prev c ((prev_id, h) # rest) (light_id, min_distance) =
     (if length h > 0 then
        (let distance = dist_sq c (obs_center (last h)) in
         if distance < 2500 \<and> below_min distance min_distance
         then closest_prev c rest (Some prev_id, Some distance)
         else closest_prev c rest (light_id, min_distance))
      else closest_prev c rest (light_id, min_distance))"

definition new_observation :: "light \<Rightarrow> int \<Rightarrow> observation" where
  "new_observation l frame_number =
     \<lparr>obs_center = center l, obs_intensity = intensity l,
      obs_frame = frame_number, obs_on = (intensity l > 180)\<rparr>"

text \<open>
  One iteration of the outer loop of \<^verbatim>\<open>track_lights\<close>. The state is
  \<^verbatim>\<open>self.light_history\<close> and \<^verbatim>\<open>current_light_states\<close>. When no previous light
  matches, the id is built from \<^verbatim>\<open>len(self.light_history)\<close> and an empty deque is
  stored under it. The append mutates the deque found under \<open>light_id\<close>
  (\<open>AList.map_entry\<close>); that key is always present at this point.
\<close>

definition track_light ::
  "nat \<Rightarrow> int \<Rightarrow> light \<Rightarrow> history_dict \<times> (track_id \<times> light) list
     \<Rightarrow> history_dict \<times> (track_id \<times> light) list"
where
  "track_light maxlen frame_number l st =
     (let hist = fst st; current_light_states = snd st;
          c = center l;
          found = fst (closest_prev c hist (None, None));
          light_id = (case found of None \<Rightarrow> Light (length hist) | Some k \<Rightarrow> k);
          hist1 = (case found of None \<Rightarrow> AList.update light_id [] hist | Some k \<Rightarrow> hist);
          hist2 = AList.map_entry light_id
                    (\<lambda>d. deque_append maxlen d (new_observation l frame_number)) hist1
      in (hist2, AList.update light_id l current_light_states))"

text \<open>
  The clean-up loop: for every key of the dictionary that is not active in this frame,
  delete the entry when its history is non-empty and its last frame is more than 10
  frames old.
\<close>

fun cleanup :: "track_id list \<Rightarrow> int \<Rightarrow> track_id list \<Rightarrow> history_dict \<Rightarrow> history_dict" where
  "cleanup active_ids frame_number [] hist = hist"
| "cleanup active_ids frame_number (light_id # ids) hist =
     cleanup active_ids frame_number ids
       (if light_id \<notin> set active_ids then
          (case map_of hist light_id of
             None \<Rightarrow> hist
           | Some h \<Rightarrow>
               if length h > 0 \<and> frame_number - obs_frame (last h) > 10
               then AList.delete light_id hist else hist)
        else hist)"

definition track_lights ::
  "detector \<Rightarrow> light list \<Rightarrow> int \<Rightarrow> (track_id \<times> light) list \<times> detector"
where
  "track_lights s detected_lights frame_number =
     (let st = fold (track_light (frame_buffer_size s) frame_number) detected_lights
                 (light_history s, []);
          hist = fst st; current_light_states = snd st;
          active_ids = map fst current_light_states
      in (current_light_states,
          s\<lparr>light_history := cleanup active_ids frame_number (map fst hist) hist\<rparr>))"

section \<open>Rule-based classification\<close>

text \<open>
  \<^verbatim>\<open>transitions = sum(1 for i in range(1, len(states)) if states[i] != states[i-1])\<close>
\<close>

fun transitions :: "bool list \<Rightarrow> nat" where
  "transitions (a # b # xs) = (if b \<noteq> a then 1 else 0) + transitions (b # xs)"
| "transitions xs = 0"

text \<open>
  The run-length loop over \<^verbatim>\<open>states[1:]\<close>, with the loop variables
  \<^verbatim>\<open>current_state, current_duration, on_periods, off_periods\<close>, followed by the
  "add last period" step.
\<close>

fun period_loop ::
  "bool list \<Rightarrow> bool \<Rightarrow> nat \<Rightarrow> nat list \<Rightarrow> nat list \<Rightarrow> nat list \<times> nat list"
where
  "period_loop [] current_state current_duration on_periods off_periods =
     (if current_state then (on_periods @ [current_duration], off_periods)
      else (on_periods, off_periods @ [current_duration]))"
| "period_loop (x # xs) current_state current_duration on_periods off_periods =
     (if x = current_state
      then period_loop xs current_state (current_duration + 1) on_periods off_periods
      else if current_state
      then period_loop xs x 1 (on_periods @ [current_duration]) off_periods
      else period_loop xs x 1 on_periods (off_periods @ [current_duration]))"

text \<open>
  \<^verbatim>\<open>np.mean(periods) if periods else float('inf')\<close>. The mean of a list of small
  integers is compared with 5 and 30 only; rounding the quotient to float64 does not
  move it across an integer, so the exact quotient decides the same way.
\<close>

datatype period_avg = Finite real | Infinite

definition avg_period :: "nat list \<Rightarrow> period_avg" where
  "avg_period periods =
     (if periods \<noteq> [] then Finite (real (sum_list periods) / real (length periods))
      else Infinite)"

fun avg_less :: "period_avg \<Rightarrow> real \<Rightarrow> bool" where
  "avg_less (Finite a) b = (a < b)"
| "avg_less Infinite b = False"

fun avg_greater :: "period_avg \<Rightarrow> real \<Rightarrow> bool" where
  "avg_greater (Finite a) b = (b < a)"
| "avg_greater Infinite b = True"

definition on_off_periods :: "bool list \<Rightarrow> nat list \<times> nat list" where
  "on_off_periods states = period_loop (tl states) (hd states) 1 [] []"

text \<open>The body of \<^verbatim>\<open>classify_light_type\<close> once the history has been fetched.\<close>

definition classify_history :: "history \<Rightarrow> label" where
  "classify_history h =
     (if length h < 10 then unknown
      else
        (let states = map obs_on h;
             tr = transitions states
         in if tr = 0 then running_light
            else
              (let avg_on_period = avg_period (fst (on_off_periods states));
                   avg_off_period = avg_period (snd (on_off_periods states))
               in if tr > 3 \<and> avg_greater avg_on_period 5 \<and> avg_less avg_on_period 30
                       \<and> avg_greater avg_off_period 5 \<and> avg_less avg_off_period 30
                  then hazard_light
                  else if tr > 0 \<and> (avg_less avg_on_period 5 \<or> avg_less avg_off_period 5)
                  then hazard_light
                  else running_light)))"

definition classify_light_type :: "detector \<Rightarrow> track_id \<Rightarrow> label" where
  "classify_light_type s light_id =
     (case map_of (light_history s) light_id of
        None \<Rightarrow> unknown
      | Some h \<Rightarrow> classify_history h)"

section \<open>Region detection\<close>

text \<open>
  \<^verbatim>\<open>detect_lights\<close> is a chain of OpenCV calls. OpenCV is not part of the
  repository, so its operations are parameters, collected in a record. The colour
  conversion can fail (\<^verbatim>\<open>cv2.error\<close>) on an image of the wrong format; the source
  calls it outside any \<^verbatim>\<open>try\<close>. \<open>contours_of\<close> stands for the mask pipeline
  (\<^verbatim>\<open>inRange\<close> twice, \<^verbatim>\<open>bitwise_or\<close>, morphological close and open,
  \<^verbatim>\<open>findContours\<close>); \<open>roi_intensity\<close> is the mean grey level of the frame inside a
  bounding box.
\<close>

datatype cv_error = CvError

record ('frame, 'hsv, 'contour) cv2 =
  cvtColor_BGR2HSV :: "'frame \<Rightarrow> cv_error + 'hsv"
  contours_of :: "'hsv \<Rightarrow> 'contour list"
  contourArea :: "'contour \<Rightarrow> real"
  boundingRect :: "'contour \<Rightarrow> int \<times> int \<times> int \<times> int"
  roi_intensity :: "'frame \<Rightarrow> int \<times> int \<times> int \<times> int \<Rightarrow> real"

text \<open>One iteration of the loop over the contours.\<close>

definition detect_contour ::
  "('frame, 'hsv, 'contour) cv2 \<Rightarrow> 'frame \<Rightarrow> 'contour \<Rightarrow> light list \<Rightarrow> light list"
where
  "detect_contour cv frame contour detected_lights =
     (let a = contourArea cv contour in
      if a > 100 \<and> a < 50000 then
        (case boundingRect cv contour of (x, y, w, h) \<Rightarrow>
           let aspect_ratio = (if h > 0 then real_of_int w / real_of_int h else 0) in
           if 0.5 < aspect_ratio \<and> aspect_ratio < 3.0 then
             (let i = roi_intensity cv frame (x, y, w, h) in
              if i > 150 then
                detected_lights @
                  [\<lparr>bbox = (x, y, w, h), center = (x + w div 2, y + h div 2),
                    area = a, intensity = i, det_id = length detected_lights\<rparr>]
              else detected_lights)
           else detected_lights)
      else detected_lights)"

definition detect_lights ::
  "('frame, 'hsv, 'contour) cv2 \<Rightarrow> 'frame \<Rightarrow> cv_error + light list"
where
  "detect_lights cv frame =
     (case cvtColor_BGR2HSV cv frame of
        Inl e \<Rightarrow> Inl e
      | Inr hsv \<Rightarrow> Inr (fold (detect_contour cv frame) (contours_of cv hsv) []))"

section \<open>The frame pipeline\<close>

text \<open>
  \<^verbatim>\<open>process_frame\<close> increments the frame counter, detects, tracks, and classifies
  every light tracked in this frame. The detector function is a parameter, so that the
  pipeline can be run on any list of detected regions. An exception raised by the
  detection leaves the counter incremented and the tracks untouched.
\<close>

definition process_frame ::
  "('frame \<Rightarrow> cv_error + light list) \<Rightarrow> 'frame \<Rightarrow> detector
     \<Rightarrow> (cv_error + light list \<times> (track_id \<times> label) list) \<times> detector"
where
  "process_frame detect frame s =
     (let s1 = s\<lparr>frame_count := frame_count s + 1\<rparr> in
      case detect frame of
        Inl e \<Rightarrow> (Inl e, s1)
      | Inr detected_lights \<Rightarrow>
          (let r = track_lights s1 detected_lights (frame_count s1);
               tracked_lights = fst r; s2 = snd r;
               classifications =
                 map (\<lambda>kv. (fst kv, classify_light_type s2 (fst kv))) tracked_lights
           in (Inr (detected_lights, classifications), s2)))"

text \<open>A sequence of frames, each processed in turn (callers stop at an exception).\<close>

fun process_frames ::
  "('frame \<Rightarrow> cv_error + light list) \<Rightarrow> 'frame list \<Rightarrow> detector \<Rightarrow> detector"
where
  "process_frames detect [] s = s"
| "process_frames detect (frame # frames) s =
     (case process_frame detect frame s of
        (Inl e, s') \<Rightarrow> s'
      | (Inr r, s') \<Rightarrow> process_frames detect frames s')"

text \<open>A sequence of \<^verbatim>\<open>track_lights\<close> calls, each with its own frame number.\<close>

fun track_calls :: "detector \<Rightarrow> (light list \<times> int) list \<Rightarrow> detector" where
  "track_calls s [] = s"
| "track_calls s ((detected_lights, frame_number) # calls) =
     track_calls (snd (track_lights s detected_lights frame_number)) calls"

section \<open>Feature vectors for the learned classifier\<close>

text \<open>
  Both \<^verbatim>\<open>classify_with_model\<close> (\<^verbatim>\<open>inference.py\<close>) and \<^verbatim>\<open>extract_features\<close>
  (\<^verbatim>\<open>train_model.py\<close>) build a list of ten numbers from a history. The numpy
  reductions and the float operations are parameters: the definitions hold for whatever
  float64 arithmetic computes. Integer arguments are passed as the reals they denote.
\<close>

record numpy =
  np_mean :: "real list \<Rightarrow> real"
  np_std :: "real list \<Rightarrow> real"
  np_var :: "real list \<Rightarrow> real"
  np_sqrt :: "real \<Rightarrow> real"
  float_add :: "real \<Rightarrow> real \<Rightarrow> real"
  true_div :: "int \<Rightarrow> int \<Rightarrow> real"

text \<open>An entry of the feature list is a Python integer or a float.\<close>

datatype num = PyInt int | PyFloat real

text \<open>\<^verbatim>\<open>sum(states)\<close>: the number of true entries.\<close>

definition sum_states :: "bool list \<Rightarrow> int" where
  "sum_states states = int (length (filter (\<lambda>b. b) states))"

text \<open>
  The run-length loop of \<^verbatim>\<open>inference.py\<close>, lines 48 to 58: one list of periods,
  whatever the state.
\<close>

fun inference_periods :: "bool list \<Rightarrow> bool \<Rightarrow> nat \<Rightarrow> nat list \<Rightarrow> nat list" where
  "inference_periods [] current_state current_duration periods =
     periods @ [current_duration]"
| "inference_periods (x # xs) current_state current_duration periods =
     (if x = current_state
      then inference_periods xs current_state (current_duration + 1) periods
      else inference_periods xs x 1 (periods @ [current_duration]))"

definition inference_features :: "numpy \<Rightarrow> history \<Rightarrow> num list" where
  "inference_features np h =
     (let intensities = map obs_intensity h;
          states = map obs_on h;
          mean_intensity = np_mean np intensities;
          std_intensity = np_std np intensities;
          tr = transitions states;
          on_ratio = true_div np (sum_states states) (int (length states));
          periods = inference_periods (tl states) (hd states) 1 [];
          avg_period =
            (if tr > 0
             then (if periods \<noteq> [] then PyFloat (np_mean np (map real periods)) else PyInt 0)
             else PyInt (int (length states)));
          period_std =
            (if tr > 0
             then (if length periods > 1 then PyFloat (np_std np (map real periods)) else PyInt 0)
             else PyInt 0);
          centers = map obs_center h;
          center_x = np_mean np (map (\<lambda>c. real_of_int (fst c)) centers);
          center_y = np_mean np (map (\<lambda>c. real_of_int (snd c)) centers);
          movement = np_sqrt np
            (float_add np (np_var np (map (\<lambda>c. real_of_int (fst c)) centers))
                          (np_var np (map (\<lambda>c. real_of_int (snd c)) centers)))
      in [PyFloat mean_intensity, PyFloat std_intensity, PyInt (int tr), PyFloat on_ratio,
          avg_period, period_std, PyFloat center_x, PyFloat center_y,
          PyFloat movement, PyInt (int (length h))])"

text \<open>\<^verbatim>\<open>np.array([[...]])\<close>: every entry becomes a float64.\<close>

fun to_float :: "num \<Rightarrow> real" where
  "to_float (PyInt i) = real_of_int i"
| "to_float (PyFloat x) = x"

definition np_array :: "num list \<Rightarrow> real list" where
  "np_array row = map to_float row"

text \<open>
  The feature list that \<^verbatim>\<open>classify_with_model\<close> hands to the model, when it gets
  that far.
\<close>

definition online_features :: "numpy \<Rightarrow> history \<Rightarrow> num list option" where
  "online_features np h = (if length h < 10 then None else Some (inference_features np h))"

definition classify_with_model ::
  "numpy \<Rightarrow> (real list \<Rightarrow> label) option \<Rightarrow> detector \<Rightarrow> track_id \<Rightarrow> label"
where
  "classify_with_model np model s light_id =
     (case model of
        None \<Rightarrow> classify_light_type s light_id
      | Some predict \<Rightarrow>
          (case map_of (light_history s) light_id of
             None \<Rightarrow> unknown
           | Some h \<Rightarrow>
               (case online_features np h of
                  None \<Rightarrow> unknown
                | Some feature_vector \<Rightarrow> predict (np_array feature_vector))))"

text \<open>
  The run-length loop of \<^verbatim>\<open>train_model.py\<close>, lines 77 to 87, and the feature list
  of lines 65 to 114.
\<close>

fun training_periods :: "bool list \<Rightarrow> bool \<Rightarrow> nat \<Rightarrow> nat list \<Rightarrow> nat list" where
  "training_periods [] current_state current_duration periods =
     periods @ [current_duration]"
| "training_periods (x # xs) current_state current_duration periods =
     (if x = current_state
      then training_periods xs current_state (current_duration + 1) periods
      else training_periods xs x 1 (periods @ [current_duration]))"

definition training_features :: "numpy \<Rightarrow> history \<Rightarrow> num list" where
  "training_features np h =
     (let intensities = map obs_intensity h;
          states = map obs_on h;
          mean_intensity = np_mean np intensities;
          std_intensity = np_std np intensities;
          tr = transitions states;
          on_ratio = true_div np (sum_states states) (int (length states));
          periods = training_periods (tl states) (hd states) 1 [];
          avg_period =
            (if tr > 0
             then (if periods \<noteq> [] then PyFloat (np_mean np (map real periods)) else PyInt 0)
             else PyInt (int (length states)));
          period_std =
            (if tr > 0
             then (if length periods > 1 then PyFloat (np_std np (map real periods)) else PyInt 0)
             else PyInt 0);
          centers = map obs_center h;
          center_x = np_mean np (map (\<lambda>c. real_of_int (fst c)) centers);
          center_y = np_mean np (map (\<lambda>c. real_of_int (snd c)) centers);
          movement = np_sqrt np
            (float_add np (np_var np (map (\<lambda>c. real_of_int (fst c)) centers))
                          (np_var np (map (\<lambda>c. real_of_int (snd c)) centers)))
      in [PyFloat mean_intensity, PyFloat std_intensity, PyInt (int tr), PyFloat on_ratio,
          avg_period, period_std, PyFloat center_x, PyFloat center_y,
          PyFloat movement, PyInt (int (length h))])"

definition offline_features :: "numpy \<Rightarrow> history \<Rightarrow> num list option" where
  "offline_features np h = (if length h \<ge> 10 then Some (training_features np h) else None)"

text \<open>
  The loop of \<^verbatim>\<open>extract_features\<close> over all tracks after a frame: the rows appended
  to \<^verbatim>\<open>self.features\<close>.
\<close>

definition extract_features_rows :: "numpy \<Rightarrow> detector \<Rightarrow> num list list" where
  "extract_features_rows np s =
     concat (map (\<lambda>kv. case offline_features np (snd kv) of None \<Rightarrow> [] | Some row \<Rightarrow> [row])
                 (light_history s))"

text \<open>Exact arithmetic as one instance of the numpy operations.\<close>

definition exact_mean :: "real list \<Rightarrow> real" where
  "exact_mean xs = sum_list xs / real (length xs)"

definition exact_var :: "real list \<Rightarrow> real" where
  "exact_var xs = exact_mean (map (\<lambda>x. (x - exact_mean xs)\<^sup>2) xs)"

definition exact_numpy :: numpy where
  "exact_numpy =
     \<lparr>np_mean = exact_mean, np_std = (\<lambda>xs. sqrt (exact_var xs)), np_var = exact_var,
      np_sqrt = sqrt, float_add = (+), true_div = (\<lambda>a b. real_of_int a / real_of_int b)\<rparr>"

section \<open>The classification rule as the specification words it\<close>

text \<open>
  The rule of the specification, written from its sentences and independent of the
  loops above: the number of adjacent positions where the state flips; the maximal
  constant runs of the sequence; the lengths of the on runs and of the off runs; their
  arithmetic means, infinite for an empty list.
\<close>

definition spec_transitions :: "bool list \<Rightarrow> nat" where
  "spec_transitions states = length (filter (\<lambda>p. fst p \<noteq> snd p) (zip states (tl states)))"

function runs :: "bool list \<Rightarrow> (bool \<times> nat) list" where
  "runs [] = []"
| "runs (x # xs) =
     (x, Suc (length (takeWhile (\<lambda>y. y = x) xs))) # runs (dropWhile (\<lambda>y. y = x) xs)"
  by pat_completeness auto
termination
  by (relation "measure length") (auto simp: length_dropWhile_le less_Suc_eq_le)

definition spec_on_periods :: "bool list \<Rightarrow> nat list" where
  "spec_on_periods states = map snd (filter (\<lambda>r. fst r) (runs states))"

definition spec_off_periods :: "bool list \<Rightarrow> nat list" where
  "spec_off_periods states = map snd (filter (\<lambda>r. \<not> fst r) (runs states))"

definition spec_avg :: "nat list \<Rightarrow> period_avg" where
  "spec_avg ps = (if ps = [] then Infinite else Finite (real (sum_list ps) / real (length ps)))"

definition strictly_between :: "real \<Rightarrow> period_avg \<Rightarrow> real \<Rightarrow> bool" where
  "strictly_between lo a hi = (case a of Infinite \<Rightarrow> False | Finite x \<Rightarrow> lo < x \<and> x < hi)"

definition spec_rule :: "bool list \<Rightarrow> label" where
  "spec_rule states =
     (if length states < 10 then unknown
      else if spec_transitions states = 0 then running_light
      else if spec_transitions states > 3
              \<and> strictly_between 5 (spec_avg (spec_on_periods states)) 30
              \<and> strictly_between 5 (spec_avg (spec_off_periods states)) 30
      then hazard_light
      else if spec_transitions states > 0
              \<and> (avg_less (spec_avg (spec_on_periods states)) 5
                   \<or> avg_less (spec_avg (spec_off_periods states)) 5)
      then hazard_light
      else running_light)"

section \<open>Names for parts of the tracking step\<close>

text \<open>
  The id that one iteration of the outer loop of \<^verbatim>\<open>track_lights\<close> settles on for a
  region, and the deque it appends to: the matched track's history, or the empty deque
  just stored under a new id.
\<close>

definition assigned_id :: "history_dict \<Rightarrow> light \<Rightarrow> track_id" where
  "assigned_id hist l =
     (case fst (closest_prev (center l) hist (None, None)) of
        None \<Rightarrow> Light (length hist) | Some k \<Rightarrow> k)"

definition previous_history :: "history_dict \<Rightarrow> light \<Rightarrow> history" where
  "previous_history hist l =
     (case fst (closest_prev (center l) hist (None, None)) of
        None \<Rightarrow> []
      | Some k \<Rightarrow> (case map_of hist k of None \<Rightarrow> [] | Some d \<Rightarrow> d))"

text \<open>The clean-up loop of \<^verbatim>\<open>track_lights\<close>, applied to the final state of the outer loop.\<close>

definition evict_stale :: "int \<Rightarrow> history_dict \<times> (track_id \<times> light) list \<Rightarrow> history_dict" where
  "evict_stale frame_number st =
     cleanup (map fst (snd st)) frame_number (map fst (fst st)) (fst st)"

text \<open>
  The outer loop of \<^verbatim>\<open>track_lights\<close> as a whole: the dictionary each region meets
  when its iteration starts, and the id each region is given.
\<close>

fun loop_dicts :: "nat \<Rightarrow> int \<Rightarrow> light list \<Rightarrow> history_dict \<Rightarrow> history_dict list" where
  "loop_dicts n f [] hist = []"
| "loop_dicts n f (l # ls) hist =
     hist # loop_dicts n f ls (fst (track_light n f l (hist, [])))"

fun assigned_ids :: "nat \<Rightarrow> int \<Rightarrow> light list \<Rightarrow> history_dict \<Rightarrow> track_id list" where
  "assigned_ids n f [] hist = []"
| "assigned_ids n f (l # ls) hist =
     assigned_id hist l # assigned_ids n f ls (fst (track_light n f l (hist, [])))"

text \<open>
  No iteration of the loop builds a new id that is already a key of the dictionary it
  meets.
\<close>

fun no_id_collision :: "nat \<Rightarrow> int \<Rightarrow> light list \<Rightarrow> history_dict \<Rightarrow> bool" where
  "no_id_collision n f [] hist = True"
| "no_id_collision n f (l # ls) hist =
     ((case fst (closest_prev (center l) hist (None, None)) of
         None \<Rightarrow> map_of hist (Light (length hist)) = None
       | Some k \<Rightarrow> True)
      \<and> no_id_collision n f ls (fst (track_light n f l (hist, []))))"

text \<open>
  What it means for an id to be the right answer for a region, said without the
  matching loop: when some track with an observation has its last centre closer than
  50 pixels, the id is the key of such a track and no track with an observation is
  closer; otherwise it is the id built from the dictionary's length.
\<close>

definition last_dist :: "light \<Rightarrow> track_id \<times> history \<Rightarrow> int" where
  "last_dist l p = dist_sq (center l) (obs_center (last (snd p)))"

definition within_gate :: "light \<Rightarrow> track_id \<times> history \<Rightarrow> bool" where
  "within_gate l p = (snd p \<noteq> [] \<and> last_dist l p < 2500)"

definition nearest_match :: "history_dict \<Rightarrow> light \<Rightarrow> track_id \<Rightarrow> bool" where
  "nearest_match hist l k =
     (if list_ex (within_gate l) hist
      then list_ex (\<lambda>p. fst p = k \<and> within_gate l p
                        \<and> list_all (\<lambda>q. snd q = [] \<or> last_dist l p \<le> last_dist l q) hist) hist
      else k = Light (length hist))"

text \<open>
  The loop variables \<^verbatim>\<open>light_id, min_distance\<close> of the matching loop go together:
  no id while the distance is infinite, and an id with a distance below the gate
  otherwise.
\<close>

definition coherent :: "track_id option \<times> int option \<Rightarrow> bool" where
  "coherent acc =
     (case snd acc of None \<Rightarrow> fst acc = None | Some d \<Rightarrow> d < 2500 \<and> fst acc \<noteq> None)"

text \<open>
  The history stored under an id, empty when the id is not a key; the observations of
  the regions that were given the id \<open>k\<close>, in region order; and a run of appends to a
  bounded deque.
\<close>

definition history_of :: "history_dict \<Rightarrow> track_id \<Rightarrow> history" where
  "history_of hist k = (case map_of hist k of None \<Rightarrow> [] | Some d \<Rightarrow> d)"

definition observations_for ::
  "track_id \<Rightarrow> int \<Rightarrow> light list \<Rightarrow> track_id list \<Rightarrow> observation list"
where
  "observations_for k f ls ids =
     map (\<lambda>p. new_observation (fst p) f) (filter (\<lambda>p. snd p = k) (zip ls ids))"

definition deque_extend :: "nat \<Rightarrow> 'a list \<Rightarrow> 'a list \<Rightarrow> 'a list" where
  "deque_extend n d xs = fold (\<lambda>x d'. deque_append n d' x) xs d"

text \<open>What the clean-up loop leaves of an entry that received nothing in this frame.\<close>

definition kept_if_recent :: "int \<Rightarrow> history option \<Rightarrow> history option" where
  "kept_if_recent f e =
     (case e of
        None \<Rightarrow> None
      | Some h \<Rightarrow> if length h > 0 \<and> f - obs_frame (last h) > 10 then None else Some h)"

text \<open>Invariants of the history dictionary.\<close>

definition bounded_hist :: "nat \<Rightarrow> history_dict \<Rightarrow> bool" where
  "bounded_hist n hist = (\<forall>k h. map_of hist k = Some h \<longrightarrow> length h \<le> n)"

definition nonempty_hist :: "history_dict \<Rightarrow> bool" where
  "nonempty_hist hist = (\<forall>k h. map_of hist k = Some h \<longrightarrow> h \<noteq> [])"

definition fresh_active :: "int \<Rightarrow> history_dict \<Rightarrow> (track_id \<times> light) list \<Rightarrow> bool" where
  "fresh_active f hist cur =
     (\<forall>k \<in> fst ` set cur. \<exists>h. map_of hist k = Some h \<and> h \<noteq> [] \<and> obs_frame (last h) = f)"

section \<open>Example inputs\<close>

text \<open>A detected region with a given centre and mean intensity.\<close>

definition region :: "int \<times> int \<Rightarrow> real \<Rightarrow> light" where
  "region c i =
     \<lparr>bbox = (fst c - 10, snd c - 10, 20, 20), center = c, area = 400,
      intensity = i, det_id = 0\<rparr>"

definition steady_history :: history where
  "steady_history = replicate 10 (new_observation (region (100, 100) 200) 1)"

text \<open>
  One light seen in frame 1 and then no detections: the empty calls of frames 2 to 12.
\<close>

definition seen_once :: "(light list \<times> int) list" where
  "seen_once = [([region (0, 0) 200], 1)]"

definition idle_calls :: "(light list \<times> int) list" where
  "idle_calls =
     [([], 2), ([], 3), ([], 4), ([], 5), ([], 6), ([], 7), ([], 8), ([], 9), ([], 10),
      ([], 11), ([], 12)]"

text \<open>Two regions of one frame, both within 50 pixels of the same track.\<close>

definition crowded_frame :: "light list" where
  "crowded_frame = [region (1, 0) 200, region (2, 0) 200]"

text \<open>
  Two lights 60 pixels apart seen in frame 1, and the regions of frame 2: one between
  the two tracks and nearer to the second, one a pixel further on, one far away.
\<close>

definition two_tracks :: detector where
  "two_tracks =
     track_calls (init_detector 30) [([region (0, 0) 200, region (60, 0) 200], 1)]"

definition busy_frame :: "light list" where
  "busy_frame = [region (35, 0) 200, region (36, 0) 170, region (500, 0) 200]"

text \<open>
  Thirteen frames, given as their detected regions: two lights in frame 1, the second
  alone in frame 2, nothing in frames 3 to 12, and a third light far from both in
  frame 13.
\<close>

definition reuse_frames :: "light list list" where
  "reuse_frames =
     [[region (0, 0) 200, region (1000, 0) 200], [region (1000, 0) 200],
      [], [], [], [], [], [], [], [], [], [], [region (500, 0) 200]]"

text \<open>
  Sixty frames with one light at a fixed place: three cycles of ten frames on
  (intensity 200) and ten frames off (intensity 160, detected but not above 180).
\<close>

definition blink_frames :: "light list list" where
  "blink_frames =
     concat (replicate 3
       (replicate 10 [region (100, 100) 200] @ replicate 10 [region (100, 100) 160]))"

text \<open>
  A small stand-in for OpenCV on images given as rows of pixels, each pixel a list of
  channel values: the colour conversion rejects an image whose pixels do not have three
  channels, as OpenCV does; no contour is ever found.
\<close>

definition plain_cv :: "(nat list list list, unit, unit) cv2" where
  "plain_cv =
     \<lparr>cvtColor_BGR2HSV =
        (\<lambda>img. if list_all (list_all (\<lambda>px. length px = 3)) img then Inr () else Inl CvError),
      contours_of = (\<lambda>hsv. []),
      contourArea = (\<lambda>c. 0),
      boundingRect = (\<lambda>c. (0, 0, 0, 0)),
      roi_intensity = (\<lambda>img box. 0)\<rparr>"

definition gray_frame :: "nat list list list" where
  "gray_frame = [[[128], [130]], [[127], [131]]]"

section \<open>The rule-based classifier and the specified rule\<close>

lemma transitions_spec: "transitions xs = spec_transitions xs"
  unfolding spec_transitions_def
  by (induction xs rule: transitions.induct) auto

lemma takeWhile_replicate_same:
  "takeWhile (\<lambda>y. y = c) (replicate n c @ xs) = replicate n c @ takeWhile (\<lambda>y. y = c) xs"
  by (induction n) auto

lemma dropWhile_replicate_same:
  "dropWhile (\<lambda>y. y = c) (replicate n c @ xs) = dropWhile (\<lambda>y. y = c) xs"
  by (induction n) auto

lemma runs_replicate:
  "runs (replicate (Suc n) c @ xs) =
     (c, Suc n + length (takeWhile (\<lambda>y. y = c) xs)) # runs (dropWhile (\<lambda>y. y = c) xs)"
  by (simp add: takeWhile_replicate_same dropWhile_replicate_same)

lemma runs_replicate_change:
  "x \<noteq> c \<Longrightarrow> runs (replicate (Suc n) c @ x # xs) = (c, Suc n) # runs (x # xs)"
  using runs_replicate [of n c "x # xs"] by simp

lemma runs_replicate_end: "runs (replicate (Suc n) c) = [(c, Suc n)]"
  using runs_replicate [of n c "[]"] by simp

lemma period_loop_runs:
  "0 < cd \<Longrightarrow>
   period_loop xs cs cd on off =
     (on @ spec_on_periods (replicate cd cs @ xs), off @ spec_off_periods (replicate cd cs @ xs))"
proof (induction xs arbitrary: cs cd on off)
  case Nil
  obtain n where n: "cd = Suc n" using Nil by (cases cd) auto
  show ?case unfolding n spec_on_periods_def spec_off_periods_def
    by (simp only: append_Nil2 runs_replicate_end) simp
next
  case (Cons x xs)
  obtain n where n: "cd = Suc n" using Cons.prems by (cases cd) auto
  show ?case
  proof (cases "x = cs")
    case True
    have "replicate (cd + 1) cs @ xs = replicate cd cs @ cs # xs"
      by (simp add: replicate_app_Cons_same)
    then show ?thesis using True Cons.IH [of "cd + 1" cs on off] by simp
  next
    case False
    have r: "runs (replicate cd cs @ x # xs) = (cs, cd) # runs (x # xs)"
      unfolding n using False by (rule runs_replicate_change)
    have ih: "period_loop xs x 1 on' off' =
      (on' @ spec_on_periods (x # xs), off' @ spec_off_periods (x # xs))" for on' off'
      using Cons.IH [of 1 x on' off'] by simp
    have son: "spec_on_periods (replicate cd cs @ x # xs) =
        (if cs then [cd] else []) @ spec_on_periods (x # xs)"
      unfolding spec_on_periods_def r by simp
    have soff: "spec_off_periods (replicate cd cs @ x # xs) =
        (if cs then [] else [cd]) @ spec_off_periods (x # xs)"
      unfolding spec_off_periods_def r by simp
    have pl: "period_loop (x # xs) cs cd on off =
        (if cs then period_loop xs x 1 (on @ [cd]) off else period_loop xs x 1 on (off @ [cd]))"
      using False by simp
    show ?thesis unfolding pl ih son soff by simp
  qed
qed

lemma on_off_periods_spec:
  "states \<noteq> [] \<Longrightarrow> on_off_periods states = (spec_on_periods states, spec_off_periods states)"
proof -
  assume "states \<noteq> []"
  then obtain x xs where s: "states = x # xs" by (cases states) auto
  show ?thesis unfolding on_off_periods_def s
    using period_loop_runs [of 1 xs x "[]" "[]"] by simp
qed

lemma avg_period_spec: "avg_period ps = spec_avg ps"
  by (simp add: avg_period_def spec_avg_def)

lemma strictly_between_iff: "strictly_between lo a hi = (avg_greater a lo \<and> avg_less a hi)"
  by (cases a) (simp_all add: strictly_between_def)

lemma classify_history_spec: "classify_history h = spec_rule (map obs_on h)"
proof (cases "length h < 10")
  case True
  then show ?thesis by (simp add: classify_history_def spec_rule_def)
next
  case False
  then have ne: "map obs_on h \<noteq> []" by auto
  show ?thesis
    using False
    by (simp add: classify_history_def spec_rule_def Let_def on_off_periods_spec [OF ne]
        avg_period_spec strictly_between_iff transitions_spec)
qed

text \<open>
  C10. \<^verbatim>\<open>classify_light_type\<close> called with an id that is not a key of
  \<^verbatim>\<open>light_history\<close> returns \<^verbatim>\<open>'unknown'\<close>, for every detector state; no lookup
  of the missing key is attempted.
\<close>

theorem classify_missing_id_unknown:
  "map_of (light_history s) light_id = None \<Longrightarrow> classify_light_type s light_id = unknown"
  by (simp add: classify_light_type_def)

theorem classify_missing_id_unknown_witness:
  "map_of (light_history (init_detector 30)) (Light 0) = None
   \<and> classify_light_type (init_detector 30) (Light 0) = unknown"
  using classify_missing_id_unknown [of "init_detector 30" "Light 0"]
  by (simp add: init_detector_def)

text \<open>
  C6. \<^verbatim>\<open>classify_light_type\<close> computes the rule of section 4.3 of the specification
  on the on/off sequence of the track's history: fewer than 10 entries give Unknown, no
  transition gives RunningLight, more than 3 transitions with both average run lengths
  strictly between 5 and 30 give HazardLight, otherwise a transition with an average run
  length below 5 gives HazardLight, and everything else gives RunningLight.
\<close>

theorem classify_light_type_is_spec_rule:
  "classify_light_type s light_id =
     (case map_of (light_history s) light_id of
        None \<Rightarrow> unknown
      | Some h \<Rightarrow> spec_rule (map obs_on h))"
  by (simp add: classify_light_type_def classify_history_spec split: option.splits)

section \<open>Run lists and averages\<close>

lemma period_loop_keeps:
  "(on \<noteq> [] \<longrightarrow> fst (period_loop xs cs cd on off) \<noteq> []) \<and>
   (off \<noteq> [] \<longrightarrow> snd (period_loop xs cs cd on off) \<noteq> [])"
  by (induction xs arbitrary: cs cd on off) auto

lemma period_loop_current:
  "(cs \<longrightarrow> fst (period_loop xs cs cd on off) \<noteq> []) \<and>
   (\<not> cs \<longrightarrow> snd (period_loop xs cs cd on off) \<noteq> [])"
  by (induction xs arbitrary: cs cd on off) (auto simp: period_loop_keeps)

lemma period_loop_both:
  "0 < transitions (cs # xs) \<Longrightarrow>
   fst (period_loop xs cs cd on off) \<noteq> [] \<and> snd (period_loop xs cs cd on off) \<noteq> []"
proof (induction xs arbitrary: cs cd on off)
  case Nil
  then show ?case by simp
next
  case (Cons x xs)
  show ?case
  proof (cases "x = cs")
    case True
    then show ?thesis using Cons by simp
  next
    case False
    then show ?thesis
      using period_loop_keeps [of "on @ [cd]" xs x 1 off] period_loop_keeps [of on xs x 1 "off @ [cd]"]
        period_loop_current [of x xs 1 "on @ [cd]" off] period_loop_current [of x xs 1 on "off @ [cd]"]
      by (cases cs) auto
  qed
qed

lemma on_off_periods_nonempty:
  assumes "1 \<le> transitions states"
  shows "fst (on_off_periods states) \<noteq> [] \<and> snd (on_off_periods states) \<noteq> []"
proof -
  obtain x xs where s: "states = x # xs" using assms by (cases states) auto
  have "0 < transitions (x # xs)" using assms s by simp
  then show ?thesis unfolding on_off_periods_def s
    using period_loop_both [of x xs 1 "[]" "[]"] by simp
qed

text \<open>
  C9. The average of an empty run list is infinite, with no division; and when there is
  at least one transition both run lists are non-empty, so both averages are finite.
\<close>

theorem run_averages_safe:
  "avg_period [] = Infinite \<and>
   (1 \<le> transitions states \<longrightarrow>
      fst (on_off_periods states) \<noteq> [] \<and> snd (on_off_periods states) \<noteq> [] \<and>
      avg_period (fst (on_off_periods states)) \<noteq> Infinite \<and>
      avg_period (snd (on_off_periods states)) \<noteq> Infinite)"
  using on_off_periods_nonempty [of states] by (simp add: avg_period_def)

theorem run_averages_safe_witness:
  "1 \<le> transitions [True, False] \<and>
   fst (on_off_periods [True, False]) \<noteq> [] \<and> snd (on_off_periods [True, False]) \<noteq> [] \<and>
   avg_period (fst (on_off_periods [True, False])) \<noteq> Infinite \<and>
   avg_period (snd (on_off_periods [True, False])) \<noteq> Infinite"
  using run_averages_safe [of "[True, False]"] by simp

section \<open>Online and offline feature vectors\<close>

lemma inference_periods_training:
  "inference_periods xs cs cd ps = training_periods xs cs cd ps"
  by (induction xs arbitrary: cs cd ps) auto

lemma inference_features_training: "inference_features np h = training_features np h"
  by (simp add: inference_features_def training_features_def inference_periods_training)

text \<open>
  C5. For every history of at least 10 observations, the ten values computed by
  \<^verbatim>\<open>classify_with_model\<close> before it calls the model are the ten values that
  \<^verbatim>\<open>extract_features\<close> appends for the same history, and both paths do compute them.
\<close>

theorem online_offline_features_equal:
  "10 \<le> length h \<Longrightarrow>
   online_features np h = offline_features np h \<and> online_features np h \<noteq> None"
  by (simp add: online_features_def offline_features_def inference_features_training)

theorem online_offline_features_equal_witness:
  "10 \<le> length steady_history \<and>
   online_features exact_numpy steady_history = offline_features exact_numpy steady_history \<and>
   online_features exact_numpy steady_history \<noteq> None"
proof -
  have len: "10 \<le> length steady_history" by (simp add: steady_history_def)
  show ?thesis using len online_offline_features_equal [OF len, of exact_numpy] by blast
qed

section \<open>Invariants of the tracker\<close>

lemma deque_append_length:
  "length d \<le> n \<Longrightarrow> length (deque_append n d x) \<le> n"
  by (auto simp: deque_append_def Let_def)

lemma deque_append_last:
  "0 < n \<Longrightarrow> deque_append n d x \<noteq> [] \<and> last (deque_append n d x) = x"
  by (cases d) (auto simp: deque_append_def Let_def)

lemma closest_prev_key:
  "fst (closest_prev c hist acc) = Some k \<Longrightarrow> fst acc = Some k \<or> k \<in> fst ` set hist"
proof (induction hist arbitrary: acc)
  case Nil
  then show ?case by simp
next
  case (Cons p rest)
  obtain pid h where p: "p = (pid, h)" by (cases p)
  obtain a m where acc: "acc = (a, m)" by (cases acc)
  let ?d = "dist_sq c (obs_center (last h))"
  show ?case
  proof (cases "length h > 0 \<and> ?d < 2500 \<and> below_min ?d m")
    case True
    then have "closest_prev c (p # rest) acc = closest_prev c rest (Some pid, Some ?d)"
      unfolding p acc by (simp add: Let_def)
    then have "fst (closest_prev c rest (Some pid, Some ?d)) = Some k" using Cons.prems by simp
    then have "fst (Some pid, Some ?d) = Some k \<or> k \<in> fst ` set rest" by (rule Cons.IH)
    then show ?thesis unfolding p by auto
  next
    case False
    then have "closest_prev c (p # rest) acc = closest_prev c rest acc"
      unfolding p acc by (auto simp: Let_def)
    then have "fst (closest_prev c rest acc) = Some k" using Cons.prems by simp
    then have "fst acc = Some k \<or> k \<in> fst ` set rest" by (rule Cons.IH)
    then show ?thesis by auto
  qed
qed

lemma closest_prev_present:
  "fst (closest_prev c hist (None, None)) = Some k \<Longrightarrow> \<exists>d. map_of hist k = Some d"
proof -
  assume "fst (closest_prev c hist (None, None)) = Some k"
  then have "k \<in> fst ` set hist" using closest_prev_key [of c hist "(None, None)" k] by simp
  then show ?thesis by (metis domD dom_map_of_conv_image_fst) 
qed

lemma track_light_lookup:
  "map_of (fst (track_light n f l (hist, cur))) =
     (map_of hist)(assigned_id hist l \<mapsto>
        deque_append n (previous_history hist l) (new_observation l f))"
proof (cases "fst (closest_prev (center l) hist (None, None))")
  case None
  then show ?thesis
    by (simp add: track_light_def assigned_id_def previous_history_def Let_def
        AList.map_of_map_entry AList.update_conv')
next
  case (Some k)
  then obtain d where "map_of hist k = Some d" using closest_prev_present by blast
  then show ?thesis using Some
    by (simp add: track_light_def assigned_id_def previous_history_def Let_def
        AList.map_of_map_entry)
qed

lemma track_light_active:
  "snd (track_light n f l (hist, cur)) = AList.update (assigned_id hist l) l cur"
  by (simp add: track_light_def assigned_id_def Let_def)

lemma previous_history_bounded:
  "\<forall>k h. map_of hist k = Some h \<longrightarrow> length h \<le> n \<Longrightarrow> length (previous_history hist l) \<le> n"
  by (auto simp: previous_history_def split: option.splits)

lemma track_light_bounded:
  assumes "bounded_hist n (fst st)" shows "bounded_hist n (fst (track_light n f l st))"
proof -
  obtain hist cur where st: "st = (hist, cur)" by (cases st)
  have "length (previous_history hist l) \<le> n"
    using assms unfolding st bounded_hist_def by (simp add: previous_history_bounded)
  then have "length (deque_append n (previous_history hist l) (new_observation l f)) \<le> n"
    by (rule deque_append_length)
  then show ?thesis using assms unfolding st bounded_hist_def track_light_lookup
    by (auto split: if_splits)
qed

lemma track_light_nonempty:
  assumes "0 < n" "nonempty_hist (fst st)" shows "nonempty_hist (fst (track_light n f l st))"
proof -
  obtain hist cur where st: "st = (hist, cur)" by (cases st)
  show ?thesis
    using assms deque_append_last [OF assms(1), of "previous_history hist l" "new_observation l f"]
    unfolding st nonempty_hist_def track_light_lookup
    by (auto split: if_splits)
qed

lemma track_light_fresh:
  assumes "0 < n" "fresh_active f (fst st) (snd st)"
  shows "fresh_active f (fst (track_light n f l st)) (snd (track_light n f l st))"
proof -
  obtain hist cur where st: "st = (hist, cur)" by (cases st)
  have obs: "obs_frame (new_observation l f) = f" by (simp add: new_observation_def)
  show ?thesis
    using assms(2) obs
      deque_append_last [OF assms(1), of "previous_history hist l" "new_observation l f"]
    unfolding st fresh_active_def track_light_lookup track_light_active
    by (auto simp: AList.dom_update)
qed

lemma fold_track_light_inv:
  assumes "bounded_hist n (fst st)"
  shows "bounded_hist n (fst (fold (track_light n f) ls st))"
  using assms by (induction ls arbitrary: st) (auto simp: track_light_bounded)

lemma fold_track_light_nonempty:
  assumes "0 < n" "nonempty_hist (fst st)"
  shows "nonempty_hist (fst (fold (track_light n f) ls st))"
  using assms by (induction ls arbitrary: st) (auto simp: track_light_nonempty)

lemma fold_track_light_fresh:
  assumes "0 < n" "fresh_active f (fst st) (snd st)"
  shows "fresh_active f (fst (fold (track_light n f) ls st)) (snd (fold (track_light n f) ls st))"
  using assms by (induction ls arbitrary: st) (auto simp: track_light_fresh)

lemma map_of_cleanup_None:
  "map_of hist k = None \<Longrightarrow> map_of (cleanup act f ks hist) k = None"
proof (induction ks arbitrary: hist)
  case Nil
  then show ?case by simp
next
  case (Cons a ks)
  have "map_of (AList.delete a hist) k = None"
    using Cons.prems by (simp add: AList.delete_conv)
  then show ?case using Cons by (simp split: option.splits)
qed

lemma map_of_cleanup_Some:
  "map_of (cleanup act f ks hist) k = Some h \<Longrightarrow> map_of hist k = Some h"
proof (induction ks arbitrary: hist)
  case Nil
  then show ?case by simp
next
  case (Cons a ks)
  let ?hist' = "(if a \<notin> set act then
          (case map_of hist a of
             None \<Rightarrow> hist
           | Some h \<Rightarrow>
               if length h > 0 \<and> f - obs_frame (last h) > 10
               then AList.delete a hist else hist)
        else hist)"
  have "map_of (cleanup act f ks ?hist') k = Some h" using Cons.prems by simp
  then have 1: "map_of ?hist' k = Some h" by (rule Cons.IH)
  have "?hist' = hist \<or> ?hist' = AList.delete a hist"
    by (simp split: option.splits)
  then show ?case
  proof
    assume "?hist' = hist" then show ?thesis using 1 by simp
  next
    assume "?hist' = AList.delete a hist"
    then have "map_of (AList.delete a hist) k = Some h" using 1 by simp
    then show ?thesis by (simp add: AList.delete_conv split: if_splits)
  qed
qed

lemma map_of_cleanup_stale:
  "k \<in> set ks \<Longrightarrow> k \<notin> set act \<Longrightarrow> map_of (cleanup act f ks hist) k = Some h \<Longrightarrow>
   h = [] \<or> f - obs_frame (last h) \<le> 10"
proof (induction ks arbitrary: hist)
  case Nil then show ?case by simp
next
  case (Cons a ks)
  show ?case
  proof (cases "a = k")
    case True
    have hk: "map_of hist k = Some h" using Cons.prems(3) by (rule map_of_cleanup_Some)
    show ?thesis
    proof (rule ccontr)
      assume neg: "\<not> ?thesis"
      have "map_of (AList.delete k hist) k = None" by (simp add: AList.delete_conv)
      then have "map_of (cleanup act f ks (AList.delete k hist)) k = None"
        by (rule map_of_cleanup_None)
      moreover have "cleanup act f (a # ks) hist = cleanup act f ks (AList.delete k hist)"
        using True hk Cons.prems(2) neg by simp
      ultimately show False using Cons.prems(3) by simp
    qed
  next
    case False
    then have "k \<in> set ks" using Cons.prems(1) by simp
    then show ?thesis using Cons.IH Cons.prems(2,3) by simp
  qed
qed

lemma track_lights_buffer_size [simp]:
  "frame_buffer_size (snd (track_lights s ls f)) = frame_buffer_size s"
  by (simp add: track_lights_def Let_def)

lemma track_lights_frame_count [simp]:
  "frame_count (snd (track_lights s ls f)) = frame_count s"
  by (simp add: track_lights_def Let_def)

lemma track_lights_history:
  "light_history (snd (track_lights s ls f)) =
     (let st = fold (track_light (frame_buffer_size s) f) ls (light_history s, [])
      in cleanup (map fst (snd st)) f (map fst (fst st)) (fst st))"
  by (simp add: track_lights_def Let_def)

lemma cleanup_bounded: "bounded_hist n hist \<Longrightarrow> bounded_hist n (cleanup act f ks hist)"
  unfolding bounded_hist_def using map_of_cleanup_Some by blast

lemma cleanup_nonempty: "nonempty_hist hist \<Longrightarrow> nonempty_hist (cleanup act f ks hist)"
  unfolding nonempty_hist_def using map_of_cleanup_Some by blast

lemma track_lights_bounded:
  "bounded_hist (frame_buffer_size s) (light_history s) \<Longrightarrow>
   bounded_hist (frame_buffer_size s) (light_history (snd (track_lights s ls f)))"
  unfolding track_lights_history Let_def
  by (rule cleanup_bounded, rule fold_track_light_inv) simp

lemma track_lights_nonempty:
  "0 < frame_buffer_size s \<Longrightarrow> nonempty_hist (light_history s) \<Longrightarrow>
   nonempty_hist (light_history (snd (track_lights s ls f)))"
  unfolding track_lights_history Let_def
  by (rule cleanup_nonempty, rule fold_track_light_nonempty) simp_all

lemma track_lights_recent:
  assumes cap: "0 < frame_buffer_size s" and ne: "nonempty_hist (light_history s)"
    and look: "map_of (light_history (snd (track_lights s ls f))) k = Some h"
  shows "h \<noteq> [] \<and> f - obs_frame (last h) \<le> 10"
proof -
  let ?st = "fold (track_light (frame_buffer_size s) f) ls (light_history s, [])"
  have fresh: "fresh_active f (fst ?st) (snd ?st)"
    by (rule fold_track_light_fresh [OF cap]) (simp add: fresh_active_def)
  have cl: "map_of (cleanup (map fst (snd ?st)) f (map fst (fst ?st)) (fst ?st)) k = Some h"
    using look unfolding track_lights_history Let_def .
  then have old: "map_of (fst ?st) k = Some h" by (rule map_of_cleanup_Some)
  have hne: "h \<noteq> []"
    using track_lights_nonempty [OF cap ne, of ls f] look unfolding nonempty_hist_def by blast
  have key: "k \<in> set (map fst (fst ?st))"
    using old by (metis domI dom_map_of_conv_image_fst set_map)
  show ?thesis
  proof (cases "k \<in> set (map fst (snd ?st))")
    case True
    then have "k \<in> fst ` set (snd ?st)" by simp
    then obtain h' where "map_of (fst ?st) k = Some h'" "obs_frame (last h') = f"
      using fresh unfolding fresh_active_def by blast
    then show ?thesis using old hne by simp
  next
    case False
    then show ?thesis using map_of_cleanup_stale [OF key False cl] hne by simp
  qed
qed

lemma track_calls_append:
  "track_calls s (xs @ ys) = track_calls (track_calls s xs) ys"
  by (induction s xs rule: track_calls.induct) auto

lemma track_calls_buffer_size [simp]:
  "frame_buffer_size (track_calls s calls) = frame_buffer_size s"
  by (induction s calls rule: track_calls.induct) auto

lemma track_calls_nonempty:
  "0 < frame_buffer_size s \<Longrightarrow> nonempty_hist (light_history s) \<Longrightarrow>
   nonempty_hist (light_history (track_calls s calls))"
  by (induction s calls rule: track_calls.induct) (auto simp: track_lights_nonempty)

lemma track_calls_recent:
  assumes "0 < frame_buffer_size s" "nonempty_hist (light_history s)"
    and "map_of (light_history (track_calls s (calls @ [(ls, f)]))) k = Some h"
  shows "h \<noteq> [] \<and> f - obs_frame (last h) \<le> 10"
proof -
  let ?s = "track_calls s calls"
  have "0 < frame_buffer_size ?s" using assms(1) by simp
  moreover have "nonempty_hist (light_history ?s)" using assms(1,2) by (rule track_calls_nonempty)
  moreover have "map_of (light_history (snd (track_lights ?s ls f))) k = Some h"
    using assms(3) by (simp add: track_calls_append)
  ultimately show ?thesis by (rule track_lights_recent)
qed

lemma increasing_last:
  fixes xs :: "int list"
  shows "sorted_wrt (<) xs \<Longrightarrow> xs \<noteq> [] \<Longrightarrow> \<forall>x \<in> set xs. l < x \<Longrightarrow> l + int (length xs) \<le> last xs"
proof (induction xs arbitrary: l)
  case Nil
  then show ?case by simp
next
  case (Cons x xs)
  show ?case
  proof (cases "xs = []")
    case True
    then show ?thesis using Cons.prems by simp
  next
    case False
    have "x + int (length xs) \<le> last xs"
      using Cons.prems False by (intro Cons.IH) auto
    moreover have "l < x" using Cons.prems by simp
    ultimately show ?thesis using False by simp
  qed
qed

lemma init_nonempty: "nonempty_hist (light_history (init_detector n))"
  by (simp add: nonempty_hist_def init_detector_def)

lemma init_bounded: "bounded_hist n (light_history (init_detector n))"
  by (simp add: bounded_hist_def init_detector_def)

section \<open>Evaluating the tracker on concrete frames\<close>

text \<open>
  Equations that let the simplifier run the tracker on explicit inputs, one loop
  iteration at a time.
\<close>

lemma track_lights_state:
  "snd (track_lights s ls f) =
     s\<lparr>light_history := evict_stale f (fold (track_light (frame_buffer_size s) f) ls (light_history s, []))\<rparr>"
  by (simp add: track_lights_def evict_stale_def Let_def)

lemma evict_stale_pair:
  "evict_stale f (hist, cur) = cleanup (map fst cur) f (map fst hist) hist"
  by (simp add: evict_stale_def)

lemma track_light_step:
  "track_light n f l (hist, cur) =
     (case fst (closest_prev (center l) hist (None, None)) of
        None \<Rightarrow>
          (AList.map_entry (Light (length hist)) (\<lambda>d. deque_append n d (new_observation l f))
             (AList.update (Light (length hist)) [] hist),
           AList.update (Light (length hist)) l cur)
      | Some k \<Rightarrow>
          (AList.map_entry k (\<lambda>d. deque_append n d (new_observation l f)) hist,
           AList.update k l cur))"
  by (simp add: track_light_def Let_def split: option.splits)

lemma closest_prev_step:
  "closest_prev c ((k, h) # rest) (a, m) =
     closest_prev c rest
       (if h \<noteq> [] \<and> dist_sq c (obs_center (last h)) < 2500
           \<and> below_min (dist_sq c (obs_center (last h))) m
        then (Some k, Some (dist_sq c (obs_center (last h)))) else (a, m))"
  by (simp add: Let_def)

lemma deque_append_step:
  "deque_append n d x = (if n \<le> length d then tl (d @ [x]) else d @ [x])"
  by (auto simp: deque_append_def Let_def)

lemma process_frames_Inr:
  "process_frames Inr (fr # frs) s =
     process_frames Inr frs
       (snd (track_lights (s\<lparr>frame_count := frame_count s + 1\<rparr>) fr (frame_count s + 1)))"
  by (simp add: process_frame_def Let_def)

lemmas tracking_eval =
  track_lights_state evict_stale_pair track_light_step closest_prev_step deque_append_step
  dist_sq_def below_min_def new_observation_def region_def init_detector_def

lemma replicate_num: "replicate (numeral k) x = x # replicate (pred_numeral k) x"
  by (simp add: numeral_eq_Suc)

lemma track_lights_tracked:
  "fst (track_lights s ls f) = snd (fold (track_light (frame_buffer_size s) f) ls (light_history s, []))"
  by (simp add: track_lights_def Let_def)

lemma process_frame_state:
  "snd (process_frame detect frame s) =
     (case detect frame of
        Inl e \<Rightarrow> s\<lparr>frame_count := frame_count s + 1\<rparr>
      | Inr ls \<Rightarrow> snd (track_lights (s\<lparr>frame_count := frame_count s + 1\<rparr>) ls (frame_count s + 1)))"
  by (simp add: process_frame_def Let_def split: sum.splits)

lemma process_frame_bounded:
  assumes "bounded_hist (frame_buffer_size s) (light_history s)"
  shows "frame_buffer_size (snd (process_frame detect frame s)) = frame_buffer_size s \<and>
         bounded_hist (frame_buffer_size s) (light_history (snd (process_frame detect frame s)))"
proof (cases "detect frame")
  case (Inl e)
  then show ?thesis using assms by (simp add: process_frame_state)
next
  case (Inr ls)
  let ?s1 = "s\<lparr>frame_count := frame_count s + 1\<rparr>"
  have "bounded_hist (frame_buffer_size ?s1) (light_history ?s1)" using assms by simp
  then have "bounded_hist (frame_buffer_size ?s1)
      (light_history (snd (track_lights ?s1 ls (frame_count s + 1))))"
    by (rule track_lights_bounded)
  then show ?thesis using Inr by (simp add: process_frame_state)
qed

lemma process_frames_bounded:
  "bounded_hist (frame_buffer_size s) (light_history s) \<Longrightarrow>
   frame_buffer_size (process_frames detect frames s) = frame_buffer_size s \<and>
   bounded_hist (frame_buffer_size s) (light_history (process_frames detect frames s))"
proof (induction frames arbitrary: s)
  case Nil
  then show ?case by simp
next
  case (Cons frame frames)
  obtain r s' where pf: "process_frame detect frame s = (r, s')"
    by (cases "process_frame detect frame s")
  have s': "frame_buffer_size s' = frame_buffer_size s \<and>
            bounded_hist (frame_buffer_size s) (light_history s')"
    using process_frame_bounded [OF Cons.prems, of detect frame] pf by simp
  show ?case
  proof (cases r)
    case (Inl e)
    then show ?thesis using pf s' by simp
  next
    case (Inr res)
    have "bounded_hist (frame_buffer_size s') (light_history s')" using s' by simp
    then show ?thesis using Cons.IH [of s'] pf Inr s' by simp
  qed
qed

section \<open>Bounded histories\<close>

text \<open>
  C8. Whatever frames are processed from a fresh detector, and whatever the detection
  returns for them, every live track's history has at most \<open>frame_buffer_size\<close>
  entries (30 by default); and appending to a full history drops its oldest entry and
  keeps the rest in order.
\<close>

theorem history_bounded_fifo:
  "(map_of (light_history (process_frames detect frames (init_detector n))) k = Some h
      \<longrightarrow> length h \<le> n)
   \<and> (length d = n \<and> 0 < n
      \<longrightarrow> deque_append n d (new_observation l f) = tl d @ [new_observation l f])"
proof (intro conjI impI)
  have "bounded_hist (frame_buffer_size (init_detector n)) (light_history (init_detector n))"
    using init_bounded [of n] by (simp add: init_detector_def)
  then have "bounded_hist (frame_buffer_size (init_detector n))
      (light_history (process_frames detect frames (init_detector n)))"
    using process_frames_bounded by blast
  moreover assume "map_of (light_history (process_frames detect frames (init_detector n))) k = Some h"
  ultimately show "length h \<le> n" by (simp add: bounded_hist_def init_detector_def)
next
  assume "length d = n \<and> 0 < n"
  then show "deque_append n d (new_observation l f) = tl d @ [new_observation l f]"
    by (cases d) (auto simp: deque_append_def Let_def)
qed

theorem history_bounded_fifo_witness:
  "map_of (light_history (process_frames Inr [[region (0, 0) 200], [region (0, 0) 190], [region (0, 0) 170]]
       (init_detector 2))) (Light 0)
     = Some [new_observation (region (0, 0) 190) 2, new_observation (region (0, 0) 170) 3]
   \<and> length [new_observation (region (0, 0) 190) 2, new_observation (region (0, 0) 170) 3] \<le> 2
   \<and> length [new_observation (region (0, 0) 200) 1, new_observation (region (0, 0) 190) 2] = 2
   \<and> (0::nat) < 2
   \<and> deque_append 2 [new_observation (region (0, 0) 200) 1, new_observation (region (0, 0) 190) 2]
        (new_observation (region (0, 0) 170) 3)
      = tl [new_observation (region (0, 0) 200) 1, new_observation (region (0, 0) 190) 2]
          @ [new_observation (region (0, 0) 170) 3]"
proof -
  have look: "map_of (light_history (process_frames Inr
        [[region (0, 0) 200], [region (0, 0) 190], [region (0, 0) 170]] (init_detector 2))) (Light 0)
     = Some [new_observation (region (0, 0) 190) 2, new_observation (region (0, 0) 170) 3]"
    by (simp add: tracking_eval process_frames_Inr
          del: closest_prev.simps(2) process_frames.simps(2))
  have len: "length [new_observation (region (0, 0) 200) 1, new_observation (region (0, 0) 190) 2] = 2
      \<and> (0::nat) < 2" by simp
  show ?thesis
    using look len
      history_bounded_fifo [of Inr "[[region (0, 0) 200], [region (0, 0) 190], [region (0, 0) 170]]"
        2 "Light 0" "[new_observation (region (0, 0) 190) 2, new_observation (region (0, 0) 170) 3]"
        "[new_observation (region (0, 0) 200) 1, new_observation (region (0, 0) 190) 2]"
        "region (0, 0) 170" 3]
    by blast
qed

section \<open>Eviction of stale tracks\<close>

text \<open>
  C7. With a positive history capacity, after every call of \<^verbatim>\<open>track_lights\<close> with
  frame number \<open>f\<close>, every live track has a last observation, and \<open>f\<close> minus the
  frame of that observation is at most 10. Hence a track that is live with last frame
  \<open>obs_frame (last h0)\<close> and is followed by at least 11 calls with strictly
  increasing, later frame numbers is afterwards absent under its id, unless that id
  has meanwhile been given a later observation.
\<close>

theorem stale_tracks_evicted:
  assumes cap: "0 < n"
  shows
   "(map_of (light_history (track_calls (init_detector n) (calls @ [(ls, f)]))) k = Some h
       \<longrightarrow> h \<noteq> [] \<and> f - obs_frame (last h) \<le> 10)
    \<and> (map_of (light_history (track_calls (init_detector n) calls)) k = Some h0
         \<and> 11 \<le> length later \<and> sorted_wrt (<) (map snd later)
         \<and> list_all (\<lambda>c. obs_frame (last h0) < snd c) later
       \<longrightarrow> (case map_of (light_history
                 (track_calls (track_calls (init_detector n) calls) later)) k of
              None \<Rightarrow> True
            | Some h' \<Rightarrow> obs_frame (last h0) < obs_frame (last h')))"
proof (intro conjI impI)
  have c0: "0 < frame_buffer_size (init_detector n)" using cap by (simp add: init_detector_def)
  {
    assume "map_of (light_history (track_calls (init_detector n) (calls @ [(ls, f)]))) k = Some h"
    then have r: "h \<noteq> [] \<and> f - obs_frame (last h) \<le> 10"
      by (rule track_calls_recent [OF c0 init_nonempty])
    show "h \<noteq> []" using r by simp
    show "f - obs_frame (last h) \<le> 10" using r by simp
  }
  assume a: "map_of (light_history (track_calls (init_detector n) calls)) k = Some h0
         \<and> 11 \<le> length later \<and> sorted_wrt (<) (map snd later)
         \<and> list_all (\<lambda>c. obs_frame (last h0) < snd c) later"
  let ?final = "track_calls (track_calls (init_detector n) calls) later"
  show "case map_of (light_history ?final) k of
          None \<Rightarrow> True | Some h' \<Rightarrow> obs_frame (last h0) < obs_frame (last h')"
  proof (cases "map_of (light_history ?final) k")
    case None
    then show ?thesis by simp
  next
    case (Some h')
    from a have ne: "later \<noteq> []" by auto
    obtain ls' f' where lst: "last later = (ls', f')" by (cases "last later")
    have split: "later = butlast later @ [(ls', f')]"
      using ne lst by (metis append_butlast_last_id)
    have "?final = track_calls (init_detector n) ((calls @ butlast later) @ [(ls', f')])"
      using split by (metis append_assoc track_calls_append)
    then have "map_of (light_history
         (track_calls (init_detector n) ((calls @ butlast later) @ [(ls', f')]))) k = Some h'"
      using Some by simp
    then have r: "f' - obs_frame (last h') \<le> 10"
      using track_calls_recent [OF c0 init_nonempty] by blast
    have "last (map snd later) = f'" using ne lst by (simp add: last_map)
    moreover have "obs_frame (last h0) + int (length (map snd later)) \<le> last (map snd later)"
      using a ne by (intro increasing_last) (auto simp: list_all_iff)
    ultimately have "obs_frame (last h0) + 11 \<le> f'" using a by simp
    then show ?thesis using r Some by simp
  qed
qed

theorem stale_tracks_evicted_witness:
  "(0::nat) < 30
   \<and> map_of (light_history (track_calls (init_detector 30) (seen_once @ [([], 5)]))) (Light 0)
       = Some [new_observation (region (0, 0) 200) 1]
   \<and> [new_observation (region (0, 0) 200) 1] \<noteq> []
   \<and> 5 - obs_frame (last [new_observation (region (0, 0) 200) 1]) \<le> 10
   \<and> map_of (light_history (track_calls (init_detector 30) seen_once)) (Light 0)
       = Some [new_observation (region (0, 0) 200) 1]
   \<and> 11 \<le> length idle_calls \<and> sorted_wrt (<) (map snd idle_calls)
   \<and> list_all (\<lambda>c. obs_frame (last [new_observation (region (0, 0) 200) 1]) < snd c) idle_calls
   \<and> (case map_of (light_history
          (track_calls (track_calls (init_detector 30) seen_once) idle_calls)) (Light 0) of
         None \<Rightarrow> True
       | Some h' \<Rightarrow> obs_frame (last [new_observation (region (0, 0) 200) 1]) < obs_frame (last h'))
   \<and> map_of (light_history
          (track_calls (track_calls (init_detector 30) seen_once) idle_calls)) (Light 0) = None"
proof -
  have cap: "(0::nat) < 30" by simp
  have a1: "map_of (light_history (track_calls (init_detector 30) (seen_once @ [([], 5)]))) (Light 0)
       = Some [new_observation (region (0, 0) 200) 1]"
    by (simp add: seen_once_def tracking_eval del: closest_prev.simps(2))
  have a2: "map_of (light_history (track_calls (init_detector 30) seen_once)) (Light 0)
       = Some [new_observation (region (0, 0) 200) 1]"
    by (simp add: seen_once_def tracking_eval del: closest_prev.simps(2))
  have a3: "11 \<le> length idle_calls \<and> sorted_wrt (<) (map snd idle_calls)
     \<and> list_all (\<lambda>c. obs_frame (last [new_observation (region (0, 0) 200) 1]) < snd c) idle_calls"
    by (simp add: idle_calls_def new_observation_def)
  have a4: "map_of (light_history
          (track_calls (track_calls (init_detector 30) seen_once) idle_calls)) (Light 0) = None"
    by (simp add: seen_once_def idle_calls_def tracking_eval del: closest_prev.simps(2))
  show ?thesis
    using cap a1 a2 a3 a4
      stale_tracks_evicted [OF cap, of seen_once "[]" 5 "Light 0"
        "[new_observation (region (0, 0) 200) 1]" "[new_observation (region (0, 0) 200) 1]"
        idle_calls]
    by blast
qed

section \<open>Regions and tracks within one frame\<close>

subsection \<open>The matching loop finds a nearest track within the gate\<close>

lemma closest_prev_sound:
  assumes "coherent acc"
  shows "coherent (closest_prev c hist acc)
    \<and> (\<forall>p \<in> set hist. snd p \<noteq> [] \<and> dist_sq c (obs_center (last (snd p))) < 2500
          \<longrightarrow> (\<exists>d. snd (closest_prev c hist acc) = Some d
                   \<and> d \<le> dist_sq c (obs_center (last (snd p)))))
    \<and> (\<forall>d. snd acc = Some d \<longrightarrow> (\<exists>d'. snd (closest_prev c hist acc) = Some d' \<and> d' \<le> d))
    \<and> (closest_prev c hist acc = acc
        \<or> (\<exists>p \<in> set hist. snd p \<noteq> []
              \<and> closest_prev c hist acc
                  = (Some (fst p), Some (dist_sq c (obs_center (last (snd p)))))))"
  using assms
proof (induction hist arbitrary: acc)
  case Nil
  then show ?case by simp
next
  case (Cons e rest)
  obtain pid h where e: "e = (pid, h)" by (cases e)
  obtain a m where acc: "acc = (a, m)" by (cases acc)
  let ?d0 = "dist_sq c (obs_center (last h))"
  let ?cond = "h \<noteq> [] \<and> ?d0 < 2500 \<and> below_min ?d0 m"
  let ?acc1 = "if ?cond then (Some pid, Some ?d0) else (a, m)"
  have step: "closest_prev c (e # rest) acc = closest_prev c rest ?acc1"
    unfolding e acc by (simp add: Let_def)
  have coh1: "coherent ?acc1" using Cons.prems unfolding acc by (simp add: coherent_def)
  note IH = Cons.IH [OF coh1]
  let ?r = "closest_prev c rest ?acc1"
  have c1: "coherent ?r" using IH by blast
  have ih2: "\<And>p. p \<in> set rest \<Longrightarrow> snd p \<noteq> [] \<Longrightarrow> dist_sq c (obs_center (last (snd p))) < 2500
      \<Longrightarrow> \<exists>d. snd ?r = Some d \<and> d \<le> dist_sq c (obs_center (last (snd p)))"
    using IH by blast
  have ih3: "\<And>d. snd ?acc1 = Some d \<Longrightarrow> \<exists>d'. snd ?r = Some d' \<and> d' \<le> d"
    using IH by blast
  have ih4: "?r = ?acc1 \<or> (\<exists>p \<in> set rest. snd p \<noteq> []
              \<and> ?r = (Some (fst p), Some (dist_sq c (obs_center (last (snd p))))))"
    using IH by blast
  have head: "h \<noteq> [] \<Longrightarrow> ?d0 < 2500 \<Longrightarrow> \<exists>d. snd ?r = Some d \<and> d \<le> ?d0"
  proof -
    assume hne: "h \<noteq> []" and near: "?d0 < 2500"
    show ?thesis
    proof (cases "below_min ?d0 m")
      case True
      then have "snd ?acc1 = Some ?d0" using hne near by simp
      then show ?thesis using ih3 by blast
    next
      case False
      then obtain dm where m: "m = Some dm" "dm \<le> ?d0"
        by (cases m) (auto simp: below_min_def)
      then have "snd ?acc1 = Some dm" using False by simp
      then obtain d' where "snd ?r = Some d'" "d' \<le> dm" using ih3 by blast
      then show ?thesis using m by auto
    qed
  qed
  have c2: "\<forall>p \<in> set (e # rest). snd p \<noteq> [] \<and> dist_sq c (obs_center (last (snd p))) < 2500
          \<longrightarrow> (\<exists>d. snd ?r = Some d \<and> d \<le> dist_sq c (obs_center (last (snd p))))"
    using head ih2 unfolding e by auto
  have c3: "\<forall>d. snd acc = Some d \<longrightarrow> (\<exists>d'. snd ?r = Some d' \<and> d' \<le> d)"
  proof (intro allI impI)
    fix d assume "snd acc = Some d"
    then have m: "m = Some d" unfolding acc by simp
    show "\<exists>d'. snd ?r = Some d' \<and> d' \<le> d"
    proof (cases ?cond)
      case True
      then have "?d0 < d" using m by (simp add: below_min_def)
      moreover have "snd ?acc1 = Some ?d0" using True by simp
      then obtain d' where "snd ?r = Some d'" "d' \<le> ?d0" using ih3 by blast
      ultimately show ?thesis by auto
    next
      case False
      then have "snd ?acc1 = Some d" using m by auto
      then show ?thesis using ih3 by blast
    qed
  qed
  have c4: "?r = acc \<or> (\<exists>p \<in> set (e # rest). snd p \<noteq> []
              \<and> ?r = (Some (fst p), Some (dist_sq c (obs_center (last (snd p))))))"
  proof (cases "?r = ?acc1")
    case True
    show ?thesis
    proof (cases ?cond)
      case c: True
      then have "?r = (Some (fst e), Some (dist_sq c (obs_center (last (snd e)))))"
        using True unfolding e by simp
      moreover have "snd e \<noteq> []" using c unfolding e by simp
      ultimately show ?thesis by auto
    next
      case False
      then have "?acc1 = acc" unfolding acc by auto
      then show ?thesis using True by simp
    qed
  next
    case False
    then show ?thesis using ih4 by auto
  qed
  show ?case unfolding step using c1 c2 c3 c4 by blast
qed

lemma assigned_id_nearest: "nearest_match hist l (assigned_id hist l)"
proof -
  let ?r = "closest_prev (center l) hist (None, None)"
  have coh0: "coherent (None, None)" by (simp add: coherent_def)
  note S = closest_prev_sound [OF coh0, of "center l" hist]
  have coh: "coherent ?r" using S by blast
  have all: "\<And>p. p \<in> set hist \<Longrightarrow> within_gate l p \<Longrightarrow> \<exists>d. snd ?r = Some d \<and> d \<le> last_dist l p"
    using S unfolding within_gate_def last_dist_def by blast
  have src: "?r = (None, None) \<or> (\<exists>p \<in> set hist. snd p \<noteq> []
              \<and> ?r = (Some (fst p), Some (last_dist l p)))"
    using S unfolding last_dist_def by blast
  show ?thesis
  proof (cases "list_ex (within_gate l) hist")
    case False
    have "fst ?r = None"
    proof (rule ccontr)
      assume "fst ?r \<noteq> None"
      then obtain p where p: "p \<in> set hist" "snd p \<noteq> []" "?r = (Some (fst p), Some (last_dist l p))"
        using src by auto
      then have "last_dist l p < 2500" using coh by (simp add: coherent_def)
      then have "within_gate l p" using p by (simp add: within_gate_def)
      then show False using False p by (auto simp: list_ex_iff)
    qed
    then show ?thesis using False by (simp add: nearest_match_def assigned_id_def)
  next
    case True
    then obtain q where q: "q \<in> set hist" "within_gate l q" by (auto simp: list_ex_iff)
    then obtain d where d: "snd ?r = Some d" using all by blast
    then have "?r \<noteq> (None, None)" by auto
    then obtain p where p: "p \<in> set hist" "snd p \<noteq> []" "?r = (Some (fst p), Some (last_dist l p))"
      using src by auto
    have gate: "within_gate l p" using coh p by (simp add: coherent_def within_gate_def)
    have id: "assigned_id hist l = fst p" using p by (simp add: assigned_id_def)
    have least: "list_all (\<lambda>q. snd q = [] \<or> last_dist l p \<le> last_dist l q) hist"
      unfolding list_all_iff
    proof
      fix q assume qin: "q \<in> set hist"
      show "snd q = [] \<or> last_dist l p \<le> last_dist l q"
      proof (cases "within_gate l q")
        case True
        then show ?thesis using all [OF qin] p by auto
      next
        case False
        then have "snd q = [] \<or> 2500 \<le> last_dist l q" by (auto simp: within_gate_def)
        moreover have "last_dist l p < 2500" using gate by (simp add: within_gate_def)
        ultimately show ?thesis by auto
      qed
    qed
    show ?thesis using True p(1) gate least id
      by (auto simp: nearest_match_def list_ex_iff)
  qed
qed

subsection \<open>The outer loop and the clean-up, region by region\<close>

lemma fst_track_light_cur:
  "fst (track_light n f l (hist, cur)) = fst (track_light n f l (hist, []))"
  by (simp add: track_light_def Let_def)

lemma fold_track_light_Cons:
  "fold (track_light n f) (l # ls) (hist, cur) =
     fold (track_light n f) ls
       (fst (track_light n f l (hist, [])), AList.update (assigned_id hist l) l cur)"
proof -
  have "track_light n f l (hist, cur) =
      (fst (track_light n f l (hist, [])), AList.update (assigned_id hist l) l cur)"
    using fst_track_light_cur [of n f l hist cur] track_light_active [of n f l hist cur]
    by (metis prod.collapse)
  then show ?thesis by simp
qed

lemma length_assigned_ids: "length (assigned_ids n f ls hist) = length ls"
  by (induction ls arbitrary: hist) auto

lemma observations_for_absent:
  "length ids = length ls \<Longrightarrow> k \<notin> set ids \<Longrightarrow> observations_for k f ls ids = []"
  by (auto simp: observations_for_def filter_empty_conv dest: set_zip_rightD)

lemma observations_for_Cons:
  "observations_for k f (l # ls) (a # ids) =
     (if a = k then [new_observation l f] else []) @ observations_for k f ls ids"
  by (simp add: observations_for_def)

lemma deque_extend_Nil: "deque_extend n d [] = d"
  by (simp add: deque_extend_def)

lemma deque_extend_Cons: "deque_extend n d (x # xs) = deque_extend n (deque_append n d x) xs"
  by (simp add: deque_extend_def)

lemma previous_history_of:
  assumes "case fst (closest_prev (center l) hist (None, None)) of
             None \<Rightarrow> map_of hist (Light (length hist)) = None | Some k \<Rightarrow> True"
  shows "previous_history hist l = history_of hist (assigned_id hist l)"
  using assms
  by (simp add: previous_history_def history_of_def assigned_id_def split: option.splits)

lemma loop_histories:
  "no_id_collision n f ls hist \<Longrightarrow>
   map_of (fst (fold (track_light n f) ls (hist, cur))) k =
     (if k \<in> set (assigned_ids n f ls hist)
      then Some (deque_extend n (history_of hist k)
                   (observations_for k f ls (assigned_ids n f ls hist)))
      else map_of hist k)"
proof (induction ls arbitrary: hist cur)
  case Nil
  then show ?case by simp
next
  case (Cons l ls)
  let ?a = "assigned_id hist l"
  let ?hist1 = "fst (track_light n f l (hist, []))"
  let ?ids = "assigned_ids n f ls ?hist1"
  let ?x = "new_observation l f"
  have nc: "no_id_collision n f ls ?hist1" using Cons.prems by simp
  have prev: "previous_history hist l = history_of hist ?a"
    using Cons.prems by (intro previous_history_of) simp
  have m1: "map_of ?hist1 = (map_of hist)(?a \<mapsto> deque_append n (history_of hist ?a) ?x)"
    using track_light_lookup [of n f l hist "[]"] prev by simp
  have ih: "map_of (fst (fold (track_light n f) ls (?hist1, AList.update ?a l cur))) k =
     (if k \<in> set ?ids
      then Some (deque_extend n (history_of ?hist1 k) (observations_for k f ls ?ids))
      else map_of ?hist1 k)"
    by (rule Cons.IH [OF nc])
  have len: "length ?ids = length ls" by (rule length_assigned_ids)
  show ?case
  proof (cases "k = ?a")
    case True
    have h1: "history_of ?hist1 k = deque_append n (history_of hist k) ?x"
      using True m1 by (simp add: history_of_def)
    show ?thesis
    proof (cases "k \<in> set ?ids")
      case in_ids: True
      show ?thesis
        unfolding fold_track_light_Cons assigned_ids.simps observations_for_Cons
        using True in_ids ih h1 by (simp add: deque_extend_Cons)
    next
      case False
      have "observations_for k f ls ?ids = []"
        using len False by (rule observations_for_absent)
      then show ?thesis
        unfolding fold_track_light_Cons assigned_ids.simps observations_for_Cons
        using True False ih m1 by (simp add: deque_extend_Cons deque_extend_Nil)
    qed
  next
    case False
    have h1: "history_of ?hist1 k = history_of hist k" "map_of ?hist1 k = map_of hist k"
      using False m1 by (simp_all add: history_of_def)
    show ?thesis
      unfolding fold_track_light_Cons assigned_ids.simps observations_for_Cons
      using False ih h1 by simp
  qed
qed

lemma loop_active:
  "fst ` set (snd (fold (track_light n f) ls (hist, cur))) =
     fst ` set cur \<union> set (assigned_ids n f ls hist)"
proof (induction ls arbitrary: hist cur)
  case Nil
  then show ?case by simp
next
  case (Cons l ls)
  show ?case
    unfolding fold_track_light_Cons Cons.IH
    by (auto simp: AList.dom_update)
qed

lemma loop_nearest:
  "list_all2 (\<lambda>d p. nearest_match d (fst p) (snd p))
     (loop_dicts n f ls hist) (zip ls (assigned_ids n f ls hist))"
  by (induction ls arbitrary: hist) (auto simp: assigned_id_nearest)

lemma map_of_cleanup_exact:
  "map_of (cleanup act f ks hist) k =
     (if k \<in> set ks \<and> k \<notin> set act then kept_if_recent f (map_of hist k) else map_of hist k)"
proof (induction ks arbitrary: hist)
  case Nil
  then show ?case by simp
next
  case (Cons a ks)
  let ?stale = "a \<notin> set act \<and> kept_if_recent f (map_of hist a) = None \<and> map_of hist a \<noteq> None"
  let ?hist1 = "if ?stale then AList.delete a hist else hist"
  have step: "cleanup act f (a # ks) hist = cleanup act f ks ?hist1"
    by (auto simp: kept_if_recent_def split: option.splits)
  have ih: "map_of (cleanup act f ks ?hist1) k =
     (if k \<in> set ks \<and> k \<notin> set act then kept_if_recent f (map_of ?hist1 k)
      else map_of ?hist1 k)"
    by (rule Cons.IH)
  have kept_None: "kept_if_recent f None = None" by (simp add: kept_if_recent_def)
  show ?case
  proof (cases "a = k \<and> ?stale")
    case True
    have ak: "a = k" and na: "k \<notin> set act" and kn: "kept_if_recent f (map_of hist k) = None"
      using True by auto
    have st: "?stale" using True by blast
    have "?hist1 = AList.delete a hist" using st by (rule if_P)
    then have "map_of ?hist1 k = map_of (AList.delete k hist) k" using ak by simp
    then have "map_of ?hist1 k = None" by (simp only: AList.delete_conv fun_upd_same)
    then have lhs: "map_of (cleanup act f ks ?hist1) k = None"
      unfolding ih by (simp add: kept_None)
    have rhs: "(if k \<in> set (a # ks) \<and> k \<notin> set act then kept_if_recent f (map_of hist k)
        else map_of hist k) = None"
      using ak na kn by simp
    show ?thesis unfolding step lhs rhs ..
  next
    case False
    have same: "map_of ?hist1 k = map_of hist k"
    proof (cases ?stale)
      case st: True
      then have neq: "a \<noteq> k" using False by blast
      have "?hist1 = AList.delete a hist" using st by (rule if_P)
      then have "map_of ?hist1 k = map_of (AList.delete a hist) k" by simp
      also have "\<dots> = map_of hist k" using neq by (simp add: AList.delete_conv)
      finally show ?thesis .
    next
      case nst: False
      have "?hist1 = hist" using nst by (rule if_not_P)
      then show ?thesis by simp
    qed
    show ?thesis
    proof (cases "a = k")
      case ak: True
      have keep: "k \<notin> set act \<Longrightarrow> kept_if_recent f (map_of hist k) = map_of hist k"
      proof -
        assume na: "k \<notin> set act"
        then have "kept_if_recent f (map_of hist k) \<noteq> None \<or> map_of hist k = None"
          using False ak by blast
        then show ?thesis
          by (auto simp: kept_if_recent_def split: option.splits if_splits)
      qed
      have idem: "k \<notin> set act \<Longrightarrow>
          kept_if_recent f (kept_if_recent f (map_of hist k)) = kept_if_recent f (map_of hist k)"
        using keep by simp
      show ?thesis unfolding step ih same using ak keep by auto
    next
      case nk: False
      then show ?thesis unfolding step ih same by auto
    qed
  qed
qed

lemma cleanup_after_loop:
  "map_of (evict_stale f (hist, cur)) k =
     (if k \<in> fst ` set cur then map_of hist k else kept_if_recent f (map_of hist k))"
proof (cases "k \<in> set (map fst hist)")
  case True
  then show ?thesis by (simp add: evict_stale_pair map_of_cleanup_exact)
next
  case False
  then have "map_of hist k = None" by (simp add: map_of_eq_None_iff)
  then show ?thesis
    by (simp add: evict_stale_pair map_of_cleanup_exact kept_if_recent_def)
qed

lemma two_tracks_state:
  "two_tracks =
     \<lparr>frame_buffer_size = 30,
      light_history = [(Light 0, [new_observation (region (0, 0) 200) 1]),
                       (Light 1, [new_observation (region (60, 0) 200) 1])],
      frame_count = 0\<rparr>"
  by (simp add: two_tracks_def tracking_eval del: closest_prev.simps(2))

text \<open>
  C2, as the code has it. In one call of \<^verbatim>\<open>track_lights\<close> every detected region is
  given exactly one track id: when some track with an observation has its last centre
  closer than 50 pixels to the region, the id of such a track than which no track is
  closer, and otherwise the id built from the dictionary's length. Provided no id built
  in this call is already a key of the dictionary, after the call the ids of
  \<^verbatim>\<open>current_light_states\<close> are exactly the ids given to regions; each of them holds
  the history it had before the call (none for a new id) extended, by appends to the
  bounded deque in region order, with the observations of exactly the regions given that
  id; and every other id keeps its history or is evicted as stale. Nothing limits a
  track to one observation per frame.
\<close>

theorem regions_feed_assigned_tracks:
  assumes "no_id_collision (frame_buffer_size s) f ls (light_history s)"
  shows
    "length (assigned_ids (frame_buffer_size s) f ls (light_history s)) = length ls
     \<and> list_all2 (\<lambda>d p. nearest_match d (fst p) (snd p))
         (loop_dicts (frame_buffer_size s) f ls (light_history s))
         (zip ls (assigned_ids (frame_buffer_size s) f ls (light_history s)))
     \<and> set (map fst (fst (track_lights s ls f)))
         = set (assigned_ids (frame_buffer_size s) f ls (light_history s))
     \<and> map_of (light_history (snd (track_lights s ls f))) k =
         (if k \<in> set (assigned_ids (frame_buffer_size s) f ls (light_history s))
          then Some (deque_extend (frame_buffer_size s) (history_of (light_history s) k)
                       (observations_for k f ls
                          (assigned_ids (frame_buffer_size s) f ls (light_history s))))
          else kept_if_recent f (map_of (light_history s) k))"
proof -
  let ?n = "frame_buffer_size s"
  let ?ids = "assigned_ids ?n f ls (light_history s)"
  let ?st = "fold (track_light ?n f) ls (light_history s, [])"
  have act: "fst ` set (snd ?st) = set ?ids"
    using loop_active [of ?n f ls "light_history s" "[]"] by simp
  have hist: "map_of (fst ?st) k =
     (if k \<in> set ?ids
      then Some (deque_extend ?n (history_of (light_history s) k) (observations_for k f ls ?ids))
      else map_of (light_history s) k)"
    using assms by (rule loop_histories)
  have "map_of (light_history (snd (track_lights s ls f))) k = map_of (evict_stale f ?st) k"
    by (simp add: track_lights_state)
  also have "\<dots> = (if k \<in> fst ` set (snd ?st) then map_of (fst ?st) k
                      else kept_if_recent f (map_of (fst ?st) k))"
    using cleanup_after_loop [of f "fst ?st" "snd ?st" k] by simp
  also have "\<dots> = (if k \<in> set ?ids
          then Some (deque_extend ?n (history_of (light_history s) k) (observations_for k f ls ?ids))
          else kept_if_recent f (map_of (light_history s) k))"
    unfolding act hist by simp
  finally have c4: "map_of (light_history (snd (track_lights s ls f))) k =
          (if k \<in> set ?ids
          then Some (deque_extend ?n (history_of (light_history s) k) (observations_for k f ls ?ids))
          else kept_if_recent f (map_of (light_history s) k))" .
  have c3: "set (map fst (fst (track_lights s ls f))) = set ?ids"
    using act by (simp add: track_lights_tracked)
  show ?thesis
    using length_assigned_ids [of ?n f ls "light_history s"]
      loop_nearest [of ?n f ls "light_history s"] c3 c4
    by blast
qed

theorem regions_feed_assigned_tracks_witness:
  "no_id_collision (frame_buffer_size two_tracks) 2 busy_frame (light_history two_tracks)
   \<and> assigned_ids (frame_buffer_size two_tracks) 2 busy_frame (light_history two_tracks)
       = [Light 1, Light 1, Light 2]
   \<and> set (map fst (fst (track_lights two_tracks busy_frame 2))) = {Light 1, Light 2}
   \<and> map_of (light_history (snd (track_lights two_tracks busy_frame 2))) (Light 1)
       = Some [new_observation (region (60, 0) 200) 1, new_observation (region (35, 0) 200) 2,
               new_observation (region (36, 0) 170) 2]
   \<and> map_of (light_history (snd (track_lights two_tracks busy_frame 2))) (Light 2)
       = Some [new_observation (region (500, 0) 200) 2]
   \<and> map_of (light_history (snd (track_lights two_tracks busy_frame 2))) (Light 0)
       = Some [new_observation (region (0, 0) 200) 1]"
proof -
  have nc: "no_id_collision (frame_buffer_size two_tracks) 2 busy_frame (light_history two_tracks)"
    by (simp add: two_tracks_state busy_frame_def tracking_eval del: closest_prev.simps(2))
  have ids: "assigned_ids (frame_buffer_size two_tracks) 2 busy_frame (light_history two_tracks)
       = [Light 1, Light 1, Light 2]"
    by (simp add: two_tracks_state busy_frame_def assigned_id_def tracking_eval
          del: closest_prev.simps(2))
  have n: "frame_buffer_size two_tracks = 30" by (simp add: two_tracks_state)
  have ids30: "assigned_ids 30 2 busy_frame (light_history two_tracks)
       = [Light 1, Light 1, Light 2]"
    using ids unfolding n .
  note T = regions_feed_assigned_tracks [OF nc]
  note T3 = T [THEN conjunct2, THEN conjunct2, THEN conjunct1]
  note T4 = T [THEN conjunct2, THEN conjunct2, THEN conjunct2]
  have hist: "light_history two_tracks
       = [(Light 0, [new_observation (region (0, 0) 200) 1]),
          (Light 1, [new_observation (region (60, 0) 200) 1])]"
    by (simp add: two_tracks_state)
  have t1: "map_of (light_history (snd (track_lights two_tracks busy_frame 2))) (Light 1)
       = Some [new_observation (region (60, 0) 200) 1, new_observation (region (35, 0) 200) 2,
               new_observation (region (36, 0) 170) 2]"
    unfolding T4 [of "Light 1"] ids unfolding n hist
    by (simp add: busy_frame_def history_of_def observations_for_def
          deque_extend_def deque_append_step)
  have t2: "map_of (light_history (snd (track_lights two_tracks busy_frame 2))) (Light 2)
       = Some [new_observation (region (500, 0) 200) 2]"
    unfolding T4 [of "Light 2"] ids unfolding n hist
    by (simp add: busy_frame_def history_of_def observations_for_def
          deque_extend_def deque_append_step)
  have t0: "map_of (light_history (snd (track_lights two_tracks busy_frame 2))) (Light 0)
       = Some [new_observation (region (0, 0) 200) 1]"
    unfolding T4 [of "Light 0"] ids unfolding n hist
    by (simp add: kept_if_recent_def new_observation_def)
  have t3: "set (map fst (fst (track_lights two_tracks busy_frame 2))) = {Light 1, Light 2}"
    unfolding T3 ids by simp
  show ?thesis using nc ids t0 t1 t2 t3 by blast
qed

text \<open>
  C2 as stated fails: a track last seen at \<open>(0, 0)\<close> and a frame with two regions at
  \<open>(1, 0)\<close> and \<open>(2, 0)\<close>. Both regions are matched to the same track, which receives
  two observations in that one call; \<^verbatim>\<open>current_light_states\<close> has a single key.
\<close>

theorem two_regions_one_track:
  "light_history (track_calls (init_detector 30) seen_once)
     = [(Light 0, [new_observation (region (0, 0) 200) 1])]
   \<and> light_history (snd (track_lights (track_calls (init_detector 30) seen_once) crowded_frame 2))
     = [(Light 0, [new_observation (region (0, 0) 200) 1,
                   new_observation (region (1, 0) 200) 2,
                   new_observation (region (2, 0) 200) 2])]
   \<and> map fst (fst (track_lights (track_calls (init_detector 30) seen_once) crowded_frame 2))
     = [Light 0]"
  by (simp add: seen_once_def crowded_frame_def tracking_eval track_lights_tracked
        del: closest_prev.simps(2))

section \<open>A frame that fails colour conversion\<close>

text \<open>
  C4, as the code has it. When the colour conversion of a frame fails,
  \<^verbatim>\<open>detect_lights\<close> raises that error and returns no list; \<^verbatim>\<open>process_frame\<close> has
  already incremented the frame counter, raises the same error, and leaves the tracks
  as they were.
\<close>

theorem conversion_failure_raises:
  "cvtColor_BGR2HSV cv frame = Inl e \<Longrightarrow>
   detect_lights cv frame = Inl e \<and>
   process_frame (detect_lights cv) frame s = (Inl e, s\<lparr>frame_count := frame_count s + 1\<rparr>)"
  by (simp add: detect_lights_def process_frame_def)

theorem conversion_failure_raises_witness:
  "cvtColor_BGR2HSV plain_cv gray_frame = Inl CvError \<and>
   detect_lights plain_cv gray_frame = Inl CvError \<and>
   process_frame (detect_lights plain_cv) gray_frame (init_detector 30)
     = (Inl CvError, (init_detector 30)\<lparr>frame_count := frame_count (init_detector 30) + 1\<rparr>)"
proof -
  have a: "cvtColor_BGR2HSV plain_cv gray_frame = Inl CvError"
    by (simp add: plain_cv_def gray_frame_def)
  show ?thesis
    using a conversion_failure_raises [OF a, of "init_detector 30"] by blast
qed

text \<open>
  C4 as stated fails: on a single-channel image, whose conversion fails,
  \<^verbatim>\<open>detect_lights\<close> does not return the empty list.
\<close>

theorem malformed_frame_not_empty_list:
  "cvtColor_BGR2HSV plain_cv gray_frame = Inl CvError \<and>
   detect_lights plain_cv gray_frame \<noteq> Inr []"
  by (simp add: detect_lights_def plain_cv_def gray_frame_def)

section \<open>Track ids after an eviction\<close>

text \<open>
  C1, evaluated on the code. After twelve frames the first of two tracks has been
  evicted and only \<^verbatim>\<open>light_1\<close> is live, with two observations. A new light in
  frame 13 matches no track; the id built from the dictionary's length is
  \<^verbatim>\<open>light_1\<close> again, the id of the live track, whose history is replaced by the new
  light's single observation.
\<close>

theorem new_track_reuses_live_id:
  "light_history (process_frames Inr (butlast reuse_frames) (init_detector 30))
     = [(Light 1, [new_observation (region (1000, 0) 200) 1,
                   new_observation (region (1000, 0) 200) 2])]
   \<and> assigned_id (light_history (process_frames Inr (butlast reuse_frames) (init_detector 30)))
        (region (500, 0) 200) = Light 1
   \<and> light_history (process_frames Inr reuse_frames (init_detector 30))
     = [(Light 1, [new_observation (region (500, 0) 200) 13])]"
  by (simp add: reuse_frames_def assigned_id_def tracking_eval process_frames_Inr
        del: closest_prev.simps(2) process_frames.simps(2))

section \<open>A light blinking ten frames on, ten frames off\<close>

text \<open>
  C3, evaluated on the code. After three cycles of ten frames on and ten frames off the
  30-entry history holds ten off, ten on and ten off observations: two transitions, and
  average run lengths of 10. The rule asks for more than three transitions, so the
  answer is \<^verbatim>\<open>running_light\<close>.
\<close>

theorem ten_on_ten_off_is_running_light:
  "classify_light_type (process_frames Inr blink_frames (init_detector 30)) (Light 0)
     = running_light"
  unfolding blink_frames_def
  by (simp add: tracking_eval process_frames_Inr replicate_num classify_light_type_def
        classify_history_def on_off_periods_def avg_period_def Let_def
      del: closest_prev.simps(2) process_frames.simps(2))

end
